theory Spec2Isabelle
  imports Main "HOL-Library.Monad_Syntax" "HOL-Library.Sublist"
begin

section \<open>The pattern language of the denylist\<close>

text \<open>
  The detector of \<^verbatim>\<open>castle_secrets.py\<close> is a class attribute \<^verbatim>\<open>denylist\<close> holding three
  compiled regular expressions; matching is inherited from the host framework, which runs
  \<^verbatim>\<open>regex.findall(string)\<close> for each entry of the list in turn.

  A text is a \<^typ>\<open>string\<close>: a sequence of characters with code points 0 to 255, one
  \<^typ>\<open>char\<close> for each code point of the Python string. The two predefined classes
  \<^verbatim>\<open>\s\<close> and \<^verbatim>\<open>\w\<close> are those of Python's \<^verbatim>\<open>re\<close> for \<^verbatim>\<open>str\<close> patterns on that range.
\<close>

text \<open>The code point of a character.\<close>

definition code :: "char \<Rightarrow> nat" where
  "code c = of_char c"

text \<open>
  \<^verbatim>\<open>\s\<close>: the white space characters (tab to carriage return, the four separators 28 to 31,
  the space, next line and the no-break space). \<^verbatim>\<open>\w\<close>: the alphanumeric characters and the
  underscore.
\<close>

definition is_space :: "char \<Rightarrow> bool" where
  "is_space c = (let n = code c in
     (9 \<le> n \<and> n \<le> 13) \<or> (28 \<le> n \<and> n \<le> 32) \<or> n = 133 \<or> n = 160)"

definition is_word :: "char \<Rightarrow> bool" where
  "is_word c = (let n = code c in
     (48 \<le> n \<and> n \<le> 57) \<or> (65 \<le> n \<and> n \<le> 90) \<or> n = 95 \<or> (97 \<le> n \<and> n \<le> 122) \<or>
     n = 170 \<or> n = 178 \<or> n = 179 \<or> n = 181 \<or> n = 185 \<or> n = 186 \<or>
     (188 \<le> n \<and> n \<le> 190) \<or> (192 \<le> n \<and> n \<le> 214) \<or> (216 \<le> n \<and> n \<le> 246) \<or>
     (248 \<le> n \<and> n \<le> 255))"

text \<open>The members of a bracketed class: a character, a range, or a predefined category.\<close>

datatype citem =
    Chr char
  | Range char char
  | Category_space
  | Category_word

fun in_item :: "citem \<Rightarrow> char \<Rightarrow> bool" where
  "in_item (Chr x) c = (c = x)"
| "in_item (Range lo hi) c = (code lo \<le> code c \<and> code c \<le> code hi)"
| "in_item Category_space c = is_space c"
| "in_item Category_word c = is_word c"

text \<open>An atom consumes exactly one character.\<close>

datatype atom =
    LITERAL char
  | IN "citem list"
  | NOT_IN "citem list"

fun accepts :: "atom \<Rightarrow> char \<Rightarrow> bool" where
  "accepts (LITERAL x) c = (c = x)"
| "accepts (IN items) c = list_ex (\<lambda>i. in_item i c) items"
| "accepts (NOT_IN items) c = (\<not> list_ex (\<lambda>i. in_item i c) items)"

text \<open>
  The operators the three patterns are built from: one atom, a greedy repetition of an
  atom between a lower and an optional upper bound (\<^verbatim>\<open>*\<close>, \<^verbatim>\<open>+\<close>, \<^verbatim>\<open>?\<close>, \<^verbatim>\<open>{m,}\<close>), and a
  negative lookahead \<^verbatim>\<open>(?!...)\<close>. A pattern is a sequence of operators.
\<close>

datatype re =
    ATOM atom
  | MAX_REPEAT nat "nat option" atom
  | ASSERT_NOT "re list"

type_synonym pattern = "re list"

definition run_length :: "atom \<Rightarrow> nat option \<Rightarrow> string \<Rightarrow> nat" where
  "run_length a hi s = (let n = length (takeWhile (accepts a) s) in
     case hi of None \<Rightarrow> n | Some h \<Rightarrow> min n h)"

text \<open>
  Backtracking matching. \<open>m_seq p s\<close> lists, in the order in which the backtracking
  engine tries them, what is left of \<open>s\<close> after each way of matching \<open>p\<close> at the start of
  \<open>s\<close>. A greedy repetition first takes the longest run it can and then gives characters
  back one at a time, down to its lower bound. A negative lookahead consumes nothing and
  succeeds when its body has no match at all.
\<close>

fun m_op :: "re \<Rightarrow> string \<Rightarrow> string list"
  and m_seq :: "re list \<Rightarrow> string \<Rightarrow> string list" where
  "m_op (ATOM a) s = (case s of [] \<Rightarrow> [] | c # t \<Rightarrow> if accepts a c then [t] else [])"
| "m_op (MAX_REPEAT lo hi a) s = map (\<lambda>k. drop k s) (rev [lo ..< Suc (run_length a hi s)])"
| "m_op (ASSERT_NOT p) s = (if m_seq p s = [] then [s] else [])"
| "m_seq [] s = [s]"
| "m_seq (r # rs) s = concat (map (m_seq rs) (m_op r s))"

text \<open>
  One attempt of the engine at the start of \<open>s\<close>: the length of the first match in
  backtracking order. With \<open>must_advance\<close> set, an empty match is not accepted and the
  engine backtracks further (the rule that lets a scan go on after an empty match).
\<close>

definition match_here :: "pattern \<Rightarrow> bool \<Rightarrow> string \<Rightarrow> nat option" where
  "match_here p must_advance s =
     (case filter (\<lambda>t. \<not> must_advance \<or> length t < length s) (m_seq p s) of
        [] \<Rightarrow> None
      | t # _ \<Rightarrow> Some (length s - length t))"

text \<open>
  \<open>search p must_advance pos s\<close>: the first span \<open>(start, end)\<close> of a match in the text whose
  part from offset \<open>pos\<close> on is \<open>s\<close>, trying every start position from left to right; only
  the attempt at \<open>pos\<close> itself is subject to \<open>must_advance\<close>.
\<close>

fun search :: "pattern \<Rightarrow> bool \<Rightarrow> nat \<Rightarrow> string \<Rightarrow> (nat \<times> nat) option" where
  "search p must_advance pos [] =
     (case match_here p must_advance [] of
        Some n \<Rightarrow> Some (pos, pos + n)
      | None \<Rightarrow> None)"
| "search p must_advance pos (c # t) =
     (case match_here p must_advance (c # t) of
        Some n \<Rightarrow> Some (pos, pos + n)
      | None \<Rightarrow> search p False (Suc pos) t)"

text \<open>
  The scanning loop behind \<^verbatim>\<open>findall\<close> and \<^verbatim>\<open>finditer\<close>: search, report the span, go on
  from its end, with \<open>must_advance\<close> set when the reported match was empty. The loop is
  written as it runs; a run that never ends has the value \<open>None\<close>.
\<close>

partial_function (option) finditer :: "pattern \<Rightarrow> bool \<Rightarrow> nat \<Rightarrow> string \<Rightarrow> (nat \<times> nat) list option" where
  "finditer p must_advance pos s =
     (case search p must_advance pos s of
        None \<Rightarrow> Some []
      | Some (i, j) \<Rightarrow> do {
          rest \<leftarrow> finditer p (i = j) j (drop (j - pos) s);
          Some ((i, j) # rest)
        })"

declare finditer.simps [code]

section \<open>Compiling the pattern sources\<close>

text \<open>
  \<^verbatim>\<open>re.compile\<close> on the fragment of the pattern language that the three sources use:
  literal characters, escapes, bracketed classes with ranges and negation, the greedy
  quantifiers and the negative lookahead. A source that is not well-formed yields the
  error \<^verbatim>\<open>re.error\<close> raises (\<open>Re_error\<close>); a well-formed construct that the fragment does
  not cover is reported apart (\<open>Outside_fragment\<close>). A bracketed class is kept as \<open>IN\<close> or
  \<open>NOT_IN\<close> whatever its size.
\<close>

datatype error = Re_error string | Outside_fragment string

definition backslash :: char where
  "backslash = CHR 0x5C"

definition is_digit :: "char \<Rightarrow> bool" where
  "is_digit c = (48 \<le> code c \<and> code c \<le> 57)"

definition is_ascii_letter :: "char \<Rightarrow> bool" where
  "is_ascii_letter c = ((65 \<le> code c \<and> code c \<le> 90) \<or> (97 \<le> code c \<and> code c \<le> 122))"

definition int_of_digits :: "string \<Rightarrow> nat" where
  "int_of_digits ds = foldl (\<lambda>n c. 10 * n + (code c - 48)) 0 ds"

text \<open>An escape \<^verbatim>\<open>\e\<close>: a category, or the escaped character itself when it is not alphanumeric.\<close>

definition escape :: "char \<Rightarrow> error + citem" where
  "escape e =
     (if e = CHR ''s'' then Inr Category_space
      else if e = CHR ''w'' then Inr Category_word
      else if is_ascii_letter e \<or> is_digit e then Inl (Outside_fragment ''escape'')
      else Inr (Chr e))"

definition class_item :: "string \<Rightarrow> error + (citem \<times> string)" where
  "class_item s =
     (case s of
        [] \<Rightarrow> Inl (Re_error ''unterminated character set'')
      | c # s1 \<Rightarrow>
          if c = backslash then
            (case s1 of
               [] \<Rightarrow> Inl (Re_error ''bad escape (end of pattern)'')
             | e # s2 \<Rightarrow> (case escape e of Inl err \<Rightarrow> Inl err | Inr it \<Rightarrow> Inr (it, s2)))
          else Inr (Chr c, s1))"

lemma class_item_shorter [termination_simp]:
  "class_item s = Inr (it, s1) \<Longrightarrow> length s1 < length s"
  by (auto simp: class_item_def split: list.splits if_splits sum.splits)

text \<open>One member of a bracketed class: an item, or a range of two literal items.\<close>

definition class_member :: "string \<Rightarrow> error + (citem list \<times> bool \<times> string)" where
  "class_member s =
     (case class_item s of
        Inl err \<Rightarrow> Inl err
      | Inr (code1, s1) \<Rightarrow>
          (case s1 of
             [] \<Rightarrow> Inr ([code1], False, s1)
           | d # s2 \<Rightarrow>
               if d \<noteq> CHR ''-'' then Inr ([code1], False, s1)
               else
                 (case s2 of
                    [] \<Rightarrow> Inl (Re_error ''unterminated character set'')
                  | e # s3 \<Rightarrow>
                      if e = CHR '']'' then Inr ([code1, Chr CHR ''-''], True, s3)
                      else
                        (case class_item s2 of
                           Inl err \<Rightarrow> Inl err
                         | Inr (code2, s4) \<Rightarrow>
                             (case (code1, code2) of
                                (Chr lo, Chr hi) \<Rightarrow>
                                  if code hi < code lo then Inl (Re_error ''bad character range'')
                                  else Inr ([Range lo hi], False, s4)
                              | _ \<Rightarrow> Inl (Re_error ''bad character range''))))))"

lemma class_member_shorter:
  assumes "class_member s = Inr (its, fin, r)"
  shows "length r < length s"
proof -
  from assms obtain code1 s1 where ci: "class_item s = Inr (code1, s1)"
    by (auto simp: class_member_def split: sum.splits)
  note l1 = class_item_shorter[OF ci]
  show ?thesis
  proof (cases s1)
    case Nil
    with assms ci l1 show ?thesis by (simp add: class_member_def)
  next
    case (Cons d s2)
    note s1 = Cons
    show ?thesis
    proof (cases "d = CHR ''-''")
      case False
      with assms ci l1 s1 show ?thesis by (simp add: class_member_def)
    next
      case True
      note d = True
      show ?thesis
      proof (cases s2)
        case Nil
        with assms ci s1 d show ?thesis by (simp add: class_member_def)
      next
        case (Cons e s3)
        note s2 = Cons
        show ?thesis
        proof (cases "e = CHR '']''")
          case True
          with assms ci l1 s1 s2 d show ?thesis by (auto simp: class_member_def)
        next
          case False
          with assms ci s1 s2 d obtain code2 s4 where c2: "class_item s2 = Inr (code2, s4)"
            and r: "r = s4"
            by (auto simp: class_member_def split: sum.splits citem.splits if_splits)
          from class_item_shorter[OF c2] l1 s1 r show ?thesis by simp
        qed
      qed
    qed
  qed
qed

function parse_class :: "citem list \<Rightarrow> string \<Rightarrow> error + (citem list \<times> string)" where
  "parse_class acc s =
     (case s of
        [] \<Rightarrow> Inl (Re_error ''unterminated character set'')
      | c # s0 \<Rightarrow>
          if c = CHR '']'' \<and> acc \<noteq> [] then Inr (rev acc, s0)
          else
            (case class_member s of
               Inl err \<Rightarrow> Inl err
             | Inr (its, fin, r) \<Rightarrow>
                 if fin then Inr (rev acc @ its, r) else parse_class (rev its @ acc) r))"
  by pat_completeness auto
termination
  by (relation "measure (\<lambda>(acc, s). length s)") (auto dest: class_member_shorter)

lemma parse_class_shorter:
  "parse_class acc s = Inr (items, r) \<Longrightarrow> length r < length s"
proof (induction acc s rule: parse_class.induct)
  case (1 acc s)
  show ?case
  proof (cases s)
    case Nil
    with "1.prems" show ?thesis by simp
  next
    case (Cons c s0)
    show ?thesis
    proof (cases "c = CHR '']'' \<and> acc \<noteq> []")
      case True
      with "1.prems" Cons show ?thesis by auto
    next
      case False
      with "1.prems" Cons obtain its fin r' where cm: "class_member s = Inr (its, fin, r')"
        by (auto split: sum.splits)
      note l = class_member_shorter[OF cm]
      show ?thesis
      proof (cases fin)
        case True
        with "1.prems" Cons False cm l show ?thesis by auto
      next
        case nf: False
        with "1.prems" Cons False cm have "parse_class (rev its @ acc) r' = Inr (items, r)"
          by auto
        from "1.IH"[OF Cons False cm refl refl nf this] l show ?thesis by simp
      qed
    qed
  qed
qed

declare parse_class.simps [simp del]

text \<open>The text after an opening bracket: an optional negation, then the members.\<close>

definition bracket :: "string \<Rightarrow> error + (atom \<times> string)" where
  "bracket s =
     (if prefix ''^'' s then
        (case parse_class [] (tl s) of
           Inl err \<Rightarrow> Inl err
         | Inr (items, r) \<Rightarrow> Inr (NOT_IN items, r))
      else
        (case parse_class [] s of
           Inl err \<Rightarrow> Inl err
         | Inr (items, r) \<Rightarrow> Inr (IN items, r)))"

lemma bracket_shorter: "bracket s = Inr (a, r) \<Longrightarrow> length r < Suc (length s)"
  by (auto simp: bracket_def simp del: parse_class.simps split: if_splits sum.splits
      dest!: parse_class_shorter)

text \<open>
  A quantifier at the head of the text: \<^verbatim>\<open>*\<close>, \<^verbatim>\<open>+\<close>, \<^verbatim>\<open>?\<close> or braces with bounds. An opening
  brace that does not start well-formed bounds is an ordinary character.
\<close>

definition braces :: "string \<Rightarrow> error + ((nat \<times> nat option) \<times> string) option" where
  "braces s =
     (let lo = takeWhile is_digit s; s1 = dropWhile is_digit s in
      case s1 of
        [] \<Rightarrow> Inr None
      | c # s2 \<Rightarrow>
          if c = CHR '','' then
            (let hi = takeWhile is_digit s2; s3 = dropWhile is_digit s2 in
             case s3 of
               [] \<Rightarrow> Inr None
             | d # s4 \<Rightarrow>
                 if d \<noteq> CHR ''}'' then Inr None
                 else if hi \<noteq> [] \<and> int_of_digits hi < int_of_digits lo
                   then Inl (Re_error ''min repeat greater than max repeat'')
                 else Inr (Some ((int_of_digits lo, if hi = [] then None else Some (int_of_digits hi)), s4)))
          else if c = CHR ''}'' \<and> lo \<noteq> [] then
            Inr (Some ((int_of_digits lo, Some (int_of_digits lo)), s2))
          else Inr None)"

definition quantifier :: "char \<Rightarrow> string \<Rightarrow> error + ((nat \<times> nat option) \<times> string) option" where
  "quantifier c s =
     (if c = CHR ''*'' then Inr (Some ((0, None), s))
      else if c = CHR ''+'' then Inr (Some ((1, None), s))
      else if c = CHR ''?'' then Inr (Some ((0, Some 1), s))
      else if c = CHR ''{'' then braces s
      else Inr None)"

lemma dropWhile_tail_shorter: "dropWhile P s = c # r \<Longrightarrow> length r < length s"
  using length_dropWhile_le[of P s] by simp

lemma quantifier_shorter: "quantifier c s = Inr (Some (q, r)) \<Longrightarrow> length r \<le> length s"
proof -
  assume a: "quantifier c s = Inr (Some (q, r))"
  show ?thesis
  proof (cases "c = CHR ''{''")
    case False
    with a show ?thesis by (auto simp: quantifier_def split: if_splits)
  next
    case True
    with a have b: "braces s = Inr (Some (q, r))" by (simp add: quantifier_def)
    then obtain x s2 where s1: "dropWhile is_digit s = x # s2"
      by (auto simp: braces_def Let_def split: list.splits)
    from dropWhile_tail_shorter[OF s1] have l2: "length s2 < length s" .
    show ?thesis
    proof (cases "x = CHR '',''")
      case False
      with b s1 l2 show ?thesis by (auto simp: braces_def Let_def split: if_splits)
    next
      case True
      with b s1 obtain y s4 where s3: "dropWhile is_digit s2 = y # s4" and r: "r = s4"
        by (auto simp: braces_def Let_def split: list.splits if_splits)
      from dropWhile_tail_shorter[OF s3] l2 r show ?thesis by simp
    qed
  qed
qed

text \<open>
  One step of the pattern parser on the character \<open>c\<close> followed by \<open>s1\<close>. \<open>acc\<close> holds the
  operators of the sequence being read, last one first; \<open>stack\<close> holds the sequences of the
  enclosing groups.
\<close>

definition parse_op ::
  "re list list \<Rightarrow> re list \<Rightarrow> char \<Rightarrow> string \<Rightarrow> error + (re list list \<times> re list \<times> string)" where
  "parse_op stack acc c s1 =
     (if c = CHR '')'' then
        (case stack of
           [] \<Rightarrow> Inl (Re_error ''unbalanced parenthesis'')
         | outer # stack' \<Rightarrow> Inr (stack', ASSERT_NOT (rev acc) # outer, s1))
      else if c = CHR ''('' then
        (if prefix ''?!'' s1 then Inr (acc # stack, [], drop 2 s1)
         else Inl (Outside_fragment ''group''))
      else if c = CHR ''['' then
        (case bracket s1 of
           Inl err \<Rightarrow> Inl err
         | Inr (a, r) \<Rightarrow> Inr (stack, ATOM a # acc, r))
      else if c = backslash then
        (case s1 of
           [] \<Rightarrow> Inl (Re_error ''bad escape (end of pattern)'')
         | e # s2 \<Rightarrow>
             (case escape e of
                Inl err \<Rightarrow> Inl err
              | Inr (Chr x) \<Rightarrow> Inr (stack, ATOM (LITERAL x) # acc, s2)
              | Inr it \<Rightarrow> Inr (stack, ATOM (IN [it]) # acc, s2)))
      else if c \<in> set ''.^$|'' then Inl (Outside_fragment ''operator'')
      else
        (case quantifier c s1 of
           Inl err \<Rightarrow> Inl err
         | Inr None \<Rightarrow> Inr (stack, ATOM (LITERAL c) # acc, s1)
         | Inr (Some ((lo, hi), s2)) \<Rightarrow>
             (case acc of
                [] \<Rightarrow> Inl (Re_error ''nothing to repeat'')
              | ATOM a # acc' \<Rightarrow>
                  if prefix ''?'' s2 \<or> prefix ''+'' s2
                    then Inl (Outside_fragment ''lazy or possessive repeat'')
                  else Inr (stack, MAX_REPEAT lo hi a # acc', s2)
              | MAX_REPEAT _ _ _ # _ \<Rightarrow> Inl (Re_error ''multiple repeat'')
              | ASSERT_NOT _ # _ \<Rightarrow> Inl (Outside_fragment ''repeated group''))))"

lemma parse_op_shorter:
  assumes "parse_op stack acc c s1 = Inr (stack', acc', r)"
  shows "length r \<le> length s1"
proof -
  consider "c = CHR '')''" | "c = CHR ''(''" | "c = CHR ''[''" | "c = backslash"
    | "c \<noteq> CHR '')''" "c \<noteq> CHR ''(''" "c \<noteq> CHR ''[''" "c \<noteq> backslash" by blast
  then show ?thesis
  proof cases
    case 1
    with assms show ?thesis by (auto simp: parse_op_def split: list.splits)
  next
    case 2
    with assms show ?thesis by (auto simp: parse_op_def split: if_splits)
  next
    case 3
    with assms show ?thesis
      by (auto simp: parse_op_def split: sum.splits dest!: bracket_shorter)
  next
    case 4
    with assms show ?thesis
      by (auto simp: parse_op_def backslash_def split: list.splits sum.splits citem.splits)
  next
    case 5
    with assms have "c \<notin> set ''.^$|''" by (auto simp: parse_op_def split: if_splits)
    with 5 assms have q: "(case quantifier c s1 of
           Inl err \<Rightarrow> Inl err
         | Inr None \<Rightarrow> Inr (stack, ATOM (LITERAL c) # acc, s1)
         | Inr (Some ((lo, hi), s2)) \<Rightarrow>
             (case acc of
                [] \<Rightarrow> Inl (Re_error ''nothing to repeat'')
              | ATOM a # acc' \<Rightarrow>
                  if prefix ''?'' s2 \<or> prefix ''+'' s2
                    then Inl (Outside_fragment ''lazy or possessive repeat'')
                  else Inr (stack, MAX_REPEAT lo hi a # acc', s2)
              | MAX_REPEAT _ _ _ # _ \<Rightarrow> Inl (Re_error ''multiple repeat'')
              | ASSERT_NOT _ # _ \<Rightarrow> Inl (Outside_fragment ''repeated group''))) = Inr (stack', acc', r)"
      by (simp add: parse_op_def)
    show ?thesis
    proof (cases "quantifier c s1")
      case (Inl err)
      with q show ?thesis by simp
    next
      case (Inr x)
      show ?thesis
      proof (cases x)
        case None
        with q Inr show ?thesis by simp
      next
        case (Some y)
        obtain b s2 where y: "y = (b, s2)" by (cases y)
        from Inr Some y have "quantifier c s1 = Inr (Some (b, s2))" by simp
        from quantifier_shorter[OF this] have "length s2 \<le> length s1" .
        moreover from q Inr Some y have "r = s2"
          by (cases b) (auto split: list.splits re.splits if_splits)
        ultimately show ?thesis by simp
      qed
    qed
  qed
qed

function parse :: "re list list \<Rightarrow> re list \<Rightarrow> string \<Rightarrow> error + pattern" where
  "parse stack acc s =
     (case s of
        [] \<Rightarrow>
          if stack = [] then Inr (rev acc)
          else Inl (Re_error ''missing ), unterminated subpattern'')
      | c # s1 \<Rightarrow>
          (case parse_op stack acc c s1 of
             Inl err \<Rightarrow> Inl err
           | Inr (stack', acc', r) \<Rightarrow> parse stack' acc' r))"
  by pat_completeness auto
termination
  by (relation "measure (\<lambda>(stack, acc, s). length s)") (auto dest: parse_op_shorter)

declare parse.simps [simp del]

definition compile :: "string \<Rightarrow> error + pattern" where
  "compile src = parse [] [] src"

text \<open>The three raw pattern strings of the source, backslashes included.\<close>

definition reward_source :: string where
  "reward_source = ''rew_[a-f0-9]{32,}''"

definition gateway_source :: string where
  \<open>gateway_source = ''OPENCLAW_GATEWAY_TOKEN'' @ backslash # ''s*='' @ backslash # ''s*['' @
     backslash # ''"']?(?!'' @ backslash # ''$'' @ backslash # ''{)[^'' @ backslash # ''s'' @
     backslash # ''"']{8,}''\<close>

definition websocket_source :: string where
  "websocket_source = ''wss?://(?!localhost)(?!127'' @ backslash # ''.0'' @ backslash # ''.0'' @
     backslash # ''.1)(?!0'' @ backslash # ''.0'' @ backslash # ''.0'' @ backslash #
     ''.0)[a-zA-Z0-9]['' @ backslash # ''w.'' @ backslash # ''-:]+''"

text \<open>
  The class body evaluates the list of \<^verbatim>\<open>re.compile\<close> calls when the module is loaded,
  one source after the other; the first source that does not compile ends it with the error.
\<close>

fun compile_all :: "string list \<Rightarrow> error + pattern list" where
  "compile_all [] = Inr []"
| "compile_all (src # srcs) =
     (case compile src of
        Inl err \<Rightarrow> Inl err
      | Inr p \<Rightarrow>
          (case compile_all srcs of
             Inl err \<Rightarrow> Inl err
           | Inr ps \<Rightarrow> Inr (p # ps)))"

definition class_body :: "error + pattern list" where
  "class_body = compile_all [reward_source, gateway_source, websocket_source]"

section \<open>The detector\<close>

definition hex_lower :: atom where
  "hex_lower = IN [Range CHR ''a'' CHR ''f'', Range CHR ''0'' CHR ''9'']"

definition space :: atom where
  "space = IN [Category_space]"

definition quote :: atom where
  "quote = IN [Chr CHR 0x22, Chr CHR 0x27]"

definition value_char :: atom where
  "value_char = NOT_IN [Category_space, Chr CHR 0x22, Chr CHR 0x27]"

definition host_first :: atom where
  "host_first = IN [Range CHR ''a'' CHR ''z'', Range CHR ''A'' CHR ''Z'', Range CHR ''0'' CHR ''9'']"

definition host_char :: atom where
  "host_char = IN [Category_word, Chr CHR ''.'', Chr CHR ''-'', Chr CHR '':'']"

definition lits :: "string \<Rightarrow> pattern" where
  "lits w = map (\<lambda>c. ATOM (LITERAL c)) w"

text \<open>\<^verbatim>\<open>rew_[a-f0-9]{32,}\<close>\<close>

definition reward_token :: pattern where
  "reward_token = lits ''rew_'' @ [MAX_REPEAT 32 None hex_lower]"

text \<open>\<^verbatim>\<open>OPENCLAW_GATEWAY_TOKEN\s*=\s*[\"']?(?!\$\{)[^\s\"']{8,}\<close>\<close>

definition gateway_token :: pattern where
  "gateway_token = lits ''OPENCLAW_GATEWAY_TOKEN'' @
     [MAX_REPEAT 0 None space, ATOM (LITERAL CHR ''=''), MAX_REPEAT 0 None space,
      MAX_REPEAT 0 (Some 1) quote, ASSERT_NOT (lits ''${''),
      MAX_REPEAT 8 None value_char]"

text \<open>\<^verbatim>\<open>wss?://(?!localhost)(?!127\.0\.0\.1)(?!0\.0\.0\.0)[a-zA-Z0-9][\w.\-:]+\<close>\<close>

definition websocket_url :: pattern where
  "websocket_url = lits ''ws'' @ [MAX_REPEAT 0 (Some 1) (LITERAL CHR ''s'')] @ lits ''://'' @
     [ASSERT_NOT (lits ''localhost''), ASSERT_NOT (lits ''127.0.0.1''),
      ASSERT_NOT (lits ''0.0.0.0''), ATOM host_first, MAX_REPEAT 1 None host_char]"

definition secret_type :: string where
  "secret_type = ''Castle/OpenClaw Secret''"

definition denylist :: "pattern list" where
  "denylist = [reward_token, gateway_token, websocket_url]"

text \<open>
  A finding: the position of the rule in the denylist, the span of the match and the
  matched text (what \<^verbatim>\<open>findall\<close> returns for a pattern without groups).
\<close>

record finding =
  rule :: nat
  span_start :: nat
  span_end :: nat
  matched_text :: string

definition mk_finding :: "nat \<Rightarrow> string \<Rightarrow> nat \<times> nat \<Rightarrow> finding" where
  "mk_finding k text sp =
     \<lparr>rule = k, span_start = fst sp, span_end = snd sp,
      matched_text = take (snd sp - fst sp) (drop (fst sp) text)\<rparr>"

text \<open>The host's loop over the denylist: every rule in order, every match of the rule in order.\<close>

fun match_rules :: "nat \<Rightarrow> pattern list \<Rightarrow> string \<Rightarrow> finding list option" where
  "match_rules k [] text = Some []"
| "match_rules k (p # ps) text = do {
     spans \<leftarrow> finditer p False 0 text;
     rest \<leftarrow> match_rules (Suc k) ps text;
     Some (map (mk_finding k text) spans @ rest)
   }"

definition scan :: "string \<Rightarrow> finding list option" where
  "scan text = match_rules 0 denylist text"


section \<open>Leftmost-longest spans\<close>




section \<open>Basic facts about matching and scanning\<close>






text \<open>The class body yields the three patterns of the denylist.\<close>

lemma class_body_denylist: "class_body = Inr denylist"
  by code_simp


section \<open>The three rules report leftmost-longest spans\<close>


lemma concat_all_empty: "(\<And>x. x \<in> set xs \<Longrightarrow> f x = []) \<Longrightarrow> concat (map f xs) = []"
  by (induction xs) auto

lemma m_seq_ATOM: "m_seq (ATOM a # rs) s = (case s of [] \<Rightarrow> [] | c # t \<Rightarrow> if accepts a c then m_seq rs t else [])"
  by (simp split: list.splits)

lemma m_seq_ASSERT_NOT: "m_seq (ASSERT_NOT q # rs) s = (if m_seq q s = [] then m_seq rs s else [])"
  by simp

lemma m_seq_lits: "m_seq (lits w @ rs) s = (if prefix w s then m_seq rs (drop (length w) s) else [])"
proof (induction w arbitrary: s)
  case Nil
  then show ?case by (simp add: lits_def)
next
  case (Cons c w)
  have "m_seq (lits (c # w) @ rs) s = m_seq (ATOM (LITERAL c) # (lits w @ rs)) s"
    by (simp add: lits_def)
  also have "\<dots> = (case s of [] \<Rightarrow> [] | x # t \<Rightarrow> if x = c then m_seq (lits w @ rs) t else [])"
    by (simp only: m_seq_ATOM accepts.simps)
  also have "\<dots> = (if prefix (c # w) s then m_seq rs (drop (length (c # w)) s) else [])"
    by (cases s) (auto simp: Cons.IH)
  finally show ?case .
qed

lemma m_seq_lits_only: "m_seq (lits w) s = (if prefix w s then [drop (length w) s] else [])"
  using m_seq_lits[of w "[]" s] by simp

lemma run_length_le: "run_length a hi s \<le> length (takeWhile (accepts a) s)"
  by (simp add: run_length_def Let_def split: option.splits)

text \<open>
  A repetition followed by something that cannot start with a repeated character never gives
  a character back: only the full run can lead to a match.
\<close>

lemma m_seq_possessive:
  assumes rej: "\<And>c t. accepts a c \<Longrightarrow> m_seq rs (c # t) = []"
  shows "m_seq (MAX_REPEAT lo hi a # rs) s =
     (let n = length (takeWhile (accepts a) s) in
      if lo \<le> n \<and> (case hi of None \<Rightarrow> True | Some h \<Rightarrow> n \<le> h) then m_seq rs (drop n s) else [])"
proof -
  define n where "n = length (takeWhile (accepts a) s)"
  define rl where "rl = run_length a hi s"
  have rl_le: "rl \<le> n" unfolding rl_def n_def by (rule run_length_le)
  have early: "m_seq rs (drop k s) = []" if "k < n" for k
  proof -
    from that have kl: "k < length s" using length_takeWhile_le[of "accepts a" s] n_def by simp
    have "accepts a (s ! k)"
      using that n_def by (metis nth_length_takeWhile takeWhile_nth nth_mem set_takeWhileD)
    moreover have "drop k s = s ! k # drop (Suc k) s" using kl by (simp add: Cons_nth_drop_Suc)
    ultimately show ?thesis using rej by simp
  qed
  have unfold: "m_seq (MAX_REPEAT lo hi a # rs) s = concat (map (\<lambda>k. m_seq rs (drop k s)) (rev [lo ..< Suc rl]))"
    by (simp add: rl_def comp_def)
  have goal: "m_seq (MAX_REPEAT lo hi a # rs) s =
     (if lo \<le> n \<and> (case hi of None \<Rightarrow> True | Some h \<Rightarrow> n \<le> h) then m_seq rs (drop n s) else [])"
  proof (cases "lo \<le> n \<and> (case hi of None \<Rightarrow> True | Some h \<Rightarrow> n \<le> h)")
    case True
    then have "rl = n" by (auto simp: rl_def n_def run_length_def Let_def split: option.splits)
    with True have "rev [lo ..< Suc rl] = n # rev [lo ..< n]" by simp
    moreover have "concat (map (\<lambda>k. m_seq rs (drop k s)) (rev [lo ..< n])) = []"
      by (rule concat_all_empty) (use early in auto)
    ultimately have e: "concat (map (\<lambda>k. m_seq rs (drop k s)) (rev [lo ..< Suc rl])) = m_seq rs (drop n s)"
      by simp
    show ?thesis by (simp only: unfold e if_P[OF True])
  next
    case False
    have e: "concat (map (\<lambda>k. m_seq rs (drop k s)) (rev [lo ..< Suc rl])) = []"
    proof (rule concat_all_empty)
      fix k assume "k \<in> set (rev [lo ..< Suc rl])"
      then have k: "lo \<le> k" "k \<le> rl" by auto
      have "k < n"
      proof (rule ccontr)
        assume "\<not> k < n"
        with k rl_le have "rl = n" "lo \<le> n" by auto
        with False show False by (auto simp: rl_def n_def run_length_def Let_def split: option.splits)
      qed
      then show "m_seq rs (drop k s) = []" by (rule early)
    qed
    show ?thesis by (simp only: unfold e if_not_P[OF False])
  qed
  show ?thesis unfolding Let_def n_def[symmetric] by (rule goal)
qed









subsection \<open>The three patterns\<close>

lemma space_not_special:
  assumes "is_space c"
  shows "c \<noteq> CHR ''=''" "c \<noteq> CHR 0x22" "c \<noteq> CHR 0x27" "c \<noteq> CHR ''$''"
  using assms by (auto simp: is_space_def code_def Let_def)


lemma websocket_rej: "accepts (LITERAL CHR ''s'') c \<Longrightarrow> m_seq (lits ''://'' @ rs) (c # t) = []"
  by (simp add: m_seq_lits)


text \<open>What follows each repetition of the gateway-token pattern cannot start with a repeated character.\<close>

lemma no_value: "\<not> accepts value_char c \<Longrightarrow> m_seq [MAX_REPEAT 8 None value_char] (c # t) = []"
  by (simp add: run_length_def)

lemma gateway_rej1: "accepts space c \<Longrightarrow> m_seq (ATOM (LITERAL CHR ''='') # rs) (c # t) = []"
  using space_not_special(1)[of c] by (simp add: space_def)

lemma gateway_rej3:
  assumes "accepts quote c"
  shows "m_seq [ASSERT_NOT (lits ''${''), MAX_REPEAT 8 None value_char] (c # t) = []"
proof -
  from assms have "\<not> accepts value_char c" by (auto simp: quote_def value_char_def)
  from no_value[OF this] show ?thesis by (simp only: m_seq_ASSERT_NOT split: if_splits) simp
qed

lemma gateway_rej2:
  assumes "accepts space c"
  shows "m_seq [MAX_REPEAT 0 (Some 1) quote, ASSERT_NOT (lits ''${''), MAX_REPEAT 8 None value_char] (c # t) = []"
proof -
  from assms have sp: "is_space c" by (simp add: space_def)
  then have nq: "\<not> accepts quote c" using space_not_special[of c] by (auto simp: quote_def)
  from sp have nv: "\<not> accepts value_char c" by (simp add: value_char_def)
  have "m_seq [MAX_REPEAT 0 (Some 1) quote, ASSERT_NOT (lits ''${''), MAX_REPEAT 8 None value_char] (c # t)
      = m_seq [ASSERT_NOT (lits ''${''), MAX_REPEAT 8 None value_char] (c # t)"
    using nq by (simp add: m_seq_possessive[OF gateway_rej3] del: m_seq.simps)
  also have "\<dots> = []"
    using no_value[OF nv] by (simp only: m_seq_ASSERT_NOT split: if_splits) simp
  finally show ?thesis .
qed


subsection \<open>From the scanning loop to leftmost-longest spans\<close>







section \<open>Scanning a text that is one token\<close>

lemma match_here_no_prefix: "\<not> prefix w s \<Longrightarrow> match_here (lits w @ rs) adv s = None"
  by (simp add: match_here_def m_seq_lits del: m_seq.simps)

lemma search_absent: "c \<notin> set s \<Longrightarrow> search (lits (c # w) @ rs) adv pos s = None"
proof (induction s arbitrary: adv pos)
  case Nil
  have "\<not> prefix (c # w) []" by simp
  from match_here_no_prefix[OF this] show ?case by simp
next
  case (Cons x s)
  then have "\<not> prefix (c # w) (x # s)" by auto
  from match_here_no_prefix[OF this] Cons show ?case by simp
qed

lemma finditer_none: "search p adv pos s = None \<Longrightarrow> finditer p adv pos s = Some []"
  by (subst finditer.simps) simp

lemma search_here: "match_here p adv s = Some n \<Longrightarrow> search p adv pos s = Some (pos, pos + n)"
  by (cases s) simp_all

lemma finditer_whole:
  assumes m: "match_here p False s = Some (length s)" and ne: "s \<noteq> []"
    and e: "match_here p False [] = None"
  shows "finditer p False 0 s = Some [(0, length s)]"
proof -
  have s: "search p False 0 s = Some (0, length s)" using search_here[OF m, of 0] by simp
  have "search p False (length s) [] = None" using e by simp
  then have r: "finditer p False (length s) [] = Some []" by (rule finditer_none)
  have "finditer p False 0 s =
      (case search p False 0 s of None \<Rightarrow> Some []
       | Some (i, j) \<Rightarrow> do { rest \<leftarrow> finditer p (i = j) j (drop (j - 0) s); Some ((i, j) # rest) })"
    by (rule finditer.simps)
  also have "\<dots> = Some [(0, length s)]"
    unfolding s using ne r by simp
  finally show ?thesis .
qed

lemma run_length_all: "\<forall>c \<in> set s. accepts a c \<Longrightarrow> run_length a None s = length s"
  by (simp add: run_length_def takeWhile_eq_all_conv[THEN iffD2])

lemma takeWhile_none: "s = [] \<or> \<not> P (hd s) \<Longrightarrow> takeWhile P s = []"
  by (cases s) auto

subsection \<open>The reward token\<close>

lemma hex_lower_letters:
  assumes "accepts hex_lower c"
  shows "c \<noteq> CHR ''r''" "c \<noteq> CHR ''O''" "c \<noteq> CHR ''w''"
  using assms by (auto simp: hex_lower_def code_def)

lemma m_seq_reward_hex:
  assumes "\<forall>c \<in> set h. accepts hex_lower c"
  shows "m_seq reward_token (''rew_'' @ h) = map (\<lambda>k. drop k h) (rev [32 ..< Suc (length h)])"
proof -
  have "m_seq reward_token (''rew_'' @ h) = m_seq [MAX_REPEAT 32 None hex_lower] h"
    unfolding reward_token_def by (simp add: m_seq_lits del: m_seq.simps)
  also have "\<dots> = map (\<lambda>k. drop k h) (rev [32 ..< Suc (run_length hex_lower None h)])"
    by (simp add: comp_def)
  finally show ?thesis by (simp only: run_length_all[OF assms])
qed

lemma match_here_reward_hex:
  assumes "\<forall>c \<in> set h. accepts hex_lower c"
  shows "match_here reward_token False (''rew_'' @ h) = (if 32 \<le> length h then Some (4 + length h) else None)"
proof (cases "32 \<le> length h")
  case True
  then have "rev [32 ..< Suc (length h)] = length h # rev [32 ..< length h]" by simp
  then show ?thesis using True
    unfolding match_here_def m_seq_reward_hex[OF assms] by simp
next
  case False
  then show ?thesis
    unfolding match_here_def m_seq_reward_hex[OF assms] by simp
qed

lemma finditer_reward_hex:
  assumes "\<forall>c \<in> set h. accepts hex_lower c"
  shows "finditer reward_token False 0 (''rew_'' @ h) =
           Some (if 32 \<le> length h then [(0, 4 + length h)] else [])"
proof -
  have r: "CHR ''r'' \<notin> set (''ew_'' @ h)" using assms hex_lower_letters(1) by auto
  have tail: "search reward_token False (Suc 0) (''ew_'' @ h) = None"
    unfolding reward_token_def using search_absent[OF r] by simp
  have s: "search reward_token False 0 (''rew_'' @ h) =
      (if 32 \<le> length h then Some (0, 4 + length h) else None)"
    using match_here_reward_hex[OF assms] tail by simp
  have e: "finditer reward_token False n [] = Some []" for n
    by (rule finditer_none) (simp add: reward_token_def match_here_no_prefix)
  show ?thesis
  proof (cases "32 \<le> length h")
    case True
    with s e show ?thesis by (subst finditer.simps) simp
  next
    case False
    with s show ?thesis by (simp add: finditer_none)
  qed
qed

lemma finditer_gateway_hex:
  assumes "\<forall>c \<in> set h. accepts hex_lower c"
  shows "finditer gateway_token False 0 (''rew_'' @ h) = Some []"
proof -
  have "CHR ''O'' \<notin> set (''rew_'' @ h)" using assms hex_lower_letters(2) by auto
  from search_absent[OF this] show ?thesis
    unfolding gateway_token_def by (intro finditer_none) simp
qed

lemma finditer_websocket_hex:
  assumes "\<forall>c \<in> set h. accepts hex_lower c"
  shows "finditer websocket_url False 0 (''rew_'' @ h) = Some []"
proof -
  have w: "CHR ''w'' \<notin> set h" using assms hex_lower_letters(3) by auto
  have tail: "search websocket_url False n h = None" for n
    unfolding websocket_url_def using search_absent[OF w] by simp
  have np: "match_here websocket_url False s = None" if "\<not> prefix ''ws'' s" for s
    unfolding websocket_url_def using match_here_no_prefix[OF that] by simp
  have "search websocket_url False 0 (''rew_'' @ h) = None"
    by (simp add: np tail)
  then show ?thesis by (rule finditer_none)
qed

text \<open>
  C2. For every string \<open>h\<close> of lowercase hexadecimal characters, the text \<^verbatim>\<open>rew_\<close> followed by
  \<open>h\<close> yields one finding, of the reward-token rule and covering the whole text, when \<open>h\<close>
  has 32 characters or more, and no finding at all when it has fewer: 32 characters are
  reported, 31 are not.
\<close>

theorem reward_token_boundary:
  assumes "\<forall>c \<in> set h. accepts hex_lower c"
  shows "scan (''rew_'' @ h) =
     Some (if 32 \<le> length h
           then [\<lparr>rule = 0, span_start = 0, span_end = 4 + length h, matched_text = ''rew_'' @ h\<rparr>]
           else [])"
  unfolding scan_def denylist_def match_rules.simps finditer_reward_hex[OF assms]
    finditer_gateway_hex[OF assms] finditer_websocket_hex[OF assms]
  by (simp add: mk_finding_def)

theorem reward_token_boundary_witness:
  "scan ''rew_0123456789abcdef0123456789abcdef'' =
     Some [\<lparr>rule = 0, span_start = 0, span_end = 36,
            matched_text = ''rew_0123456789abcdef0123456789abcdef''\<rparr>] \<and>
   scan ''rew_0123456789abcdef0123456789abcde'' = Some []"
proof -
  have a: "\<forall>c \<in> set ''0123456789abcdef0123456789abcdef''. accepts hex_lower c" by code_simp
  have b: "\<forall>c \<in> set ''0123456789abcdef0123456789abcde''. accepts hex_lower c" by code_simp
  from reward_token_boundary[OF a] reward_token_boundary[OF b] show ?thesis by simp
qed

subsection \<open>The gateway token\<close>

lemma m_seq_gateway_value:
  assumes v: "\<forall>c \<in> set v. accepts value_char c"
  shows "m_seq gateway_token (''OPENCLAW_GATEWAY_TOKEN'' @ CHR ''='' # v) =
    (if prefix ''${'' v then [] else map (\<lambda>k. drop k v) (rev [8 ..< Suc (length v)]))"
proof -
  let ?t3 = "[ASSERT_NOT (lits ''${''), MAX_REPEAT 8 None value_char]"
  let ?t2 = "MAX_REPEAT 0 (Some 1) quote # ?t3"
  let ?t1 = "MAX_REPEAT 0 None space # ?t2"
  let ?t0 = "MAX_REPEAT 0 None space # ATOM (LITERAL CHR ''='') # ?t1"
  have nsp: "takeWhile (accepts space) v = []"
    using v by (intro takeWhile_none) (cases v; auto simp: space_def value_char_def)
  have nq: "takeWhile (accepts quote) v = []"
    using v by (intro takeWhile_none) (cases v; auto simp: quote_def value_char_def)
  have neq: "takeWhile (accepts space) (CHR ''='' # v) = []"
    by (simp add: space_def is_space_def code_def)
  have "m_seq gateway_token (''OPENCLAW_GATEWAY_TOKEN'' @ CHR ''='' # v) = m_seq ?t0 (CHR ''='' # v)"
    unfolding gateway_token_def by (simp only: m_seq_lits) simp
  also have "\<dots> = m_seq (ATOM (LITERAL CHR ''='') # ?t1) (CHR ''='' # v)"
    by (simp only: m_seq_possessive[OF gateway_rej1] neq Let_def) simp
  also have "\<dots> = m_seq ?t1 v"
    by (simp only: m_seq_ATOM) simp
  also have "\<dots> = m_seq ?t2 v"
    by (simp only: m_seq_possessive[OF gateway_rej2] nsp Let_def) simp
  also have "\<dots> = m_seq ?t3 v"
    by (simp only: m_seq_possessive[OF gateway_rej3] nq Let_def) simp
  also have "\<dots> = (if prefix ''${'' v then [] else m_seq [MAX_REPEAT 8 None value_char] v)"
    by (simp only: m_seq_ASSERT_NOT m_seq_lits_only) simp
  also have "m_seq [MAX_REPEAT 8 None value_char] v = map (\<lambda>k. drop k v) (rev [8 ..< Suc (length v)])"
    by (simp add: comp_def run_length_all[OF v])
  finally show ?thesis .
qed

lemma match_here_gateway_value:
  assumes v: "\<forall>c \<in> set v. accepts value_char c" and l: "8 \<le> length v"
  shows "match_here gateway_token False (''OPENCLAW_GATEWAY_TOKEN'' @ CHR ''='' # v) =
    (if prefix ''${'' v then None else Some (23 + length v))"
proof -
  from l have "rev [8 ..< Suc (length v)] = length v # rev [8 ..< length v]" by simp
  then show ?thesis
    unfolding match_here_def m_seq_gateway_value[OF v] by simp
qed

lemma finditer_gateway_value:
  assumes v: "\<forall>c \<in> set v. accepts value_char c" and l: "8 \<le> length v"
    and np: "\<not> prefix ''${'' v"
  shows "finditer gateway_token False 0 (''OPENCLAW_GATEWAY_TOKEN'' @ CHR ''='' # v) = Some [(0, 23 + length v)]"
proof -
  let ?s = "''OPENCLAW_GATEWAY_TOKEN'' @ CHR ''='' # v"
  have len: "length ?s = 23 + length v" by simp
  have e: "match_here gateway_token False [] = None"
    by (simp add: gateway_token_def match_here_no_prefix)
  have m: "match_here gateway_token False ?s = Some (length ?s)"
    unfolding len using match_here_gateway_value[OF v l] np by (simp only: if_False)
  have "?s \<noteq> []" by simp
  from finditer_whole[OF m this e] show ?thesis unfolding len .
qed

text \<open>
  C9. A value that begins with a dollar sign without an opening brace is reported:
  \<^verbatim>\<open>OPENCLAW_GATEWAY_TOKEN=$GATEWAY_SECRET1\<close> yields a finding of the gateway-token rule.
  For every unquoted value \<open>v\<close> of 8 or more characters, none of them white space or a
  quote, the rule has no match at the assignment when \<open>v\<close> begins with \<^verbatim>\<open>${\<close>, and reports
  the whole assignment otherwise.
\<close>

theorem bare_dollar_reported:
  "scan ''OPENCLAW_GATEWAY_TOKEN=$GATEWAY_SECRET1'' =
     Some [\<lparr>rule = 1, span_start = 0, span_end = 39,
            matched_text = ''OPENCLAW_GATEWAY_TOKEN=$GATEWAY_SECRET1''\<rparr>] \<and>
   ((\<forall>c \<in> set v. accepts value_char c) \<and> 8 \<le> length v \<longrightarrow>
      (if prefix ''${'' v
       then match_here gateway_token False (''OPENCLAW_GATEWAY_TOKEN='' @ v) = None
       else finditer gateway_token False 0 (''OPENCLAW_GATEWAY_TOKEN='' @ v) = Some [(0, 23 + length v)]))"
proof (intro conjI impI)
  show "scan ''OPENCLAW_GATEWAY_TOKEN=$GATEWAY_SECRET1'' =
     Some [\<lparr>rule = 1, span_start = 0, span_end = 39,
            matched_text = ''OPENCLAW_GATEWAY_TOKEN=$GATEWAY_SECRET1''\<rparr>]"
    by code_simp
next
  assume a: "(\<forall>c \<in> set v. accepts value_char c) \<and> 8 \<le> length v"
  have eq: "''OPENCLAW_GATEWAY_TOKEN='' @ v = ''OPENCLAW_GATEWAY_TOKEN'' @ CHR ''='' # v" by simp
  show "if prefix ''${'' v
       then match_here gateway_token False (''OPENCLAW_GATEWAY_TOKEN='' @ v) = None
       else finditer gateway_token False 0 (''OPENCLAW_GATEWAY_TOKEN='' @ v) = Some [(0, 23 + length v)]"
    unfolding eq using match_here_gateway_value[of v] finditer_gateway_value[of v] a
    by (simp del: append.simps)
qed

theorem bare_dollar_reported_witness:
  "finditer gateway_token False 0 ''OPENCLAW_GATEWAY_TOKEN=$GATEWAY_SECRET1'' = Some [(0, 39)] \<and>
   match_here gateway_token False ''OPENCLAW_GATEWAY_TOKEN=${GATEWAY_SECRET1}'' = None"
proof -
  have a: "(\<forall>c \<in> set ''$GATEWAY_SECRET1''. accepts value_char c) \<and> 8 \<le> length ''$GATEWAY_SECRET1''"
    by code_simp
  have b: "(\<forall>c \<in> set ''${GATEWAY_SECRET1}''. accepts value_char c) \<and> 8 \<le> length ''${GATEWAY_SECRET1}''"
    by code_simp
  from bare_dollar_reported[of "''$GATEWAY_SECRET1''"] bare_dollar_reported[of "''${GATEWAY_SECRET1}''"] a b
  show ?thesis by simp
qed

subsection \<open>The WebSocket URL\<close>

lemma m_seq_websocket_wss:
  "m_seq websocket_url (''wss://'' @ r) =
     m_seq [ASSERT_NOT (lits ''localhost''), ASSERT_NOT (lits ''127.0.0.1''),
            ASSERT_NOT (lits ''0.0.0.0''), ATOM host_first, MAX_REPEAT 1 None host_char] r"
proof -
  have "m_seq websocket_url (''wss://'' @ r) =
      m_seq (MAX_REPEAT 0 (Some 1) (LITERAL CHR ''s'') # (lits ''://'' @
        [ASSERT_NOT (lits ''localhost''), ASSERT_NOT (lits ''127.0.0.1''),
         ASSERT_NOT (lits ''0.0.0.0''), ATOM host_first, MAX_REPEAT 1 None host_char])) (''s://'' @ r)"
    unfolding websocket_url_def by (simp only: m_seq_lits append_Cons append_Nil) simp
  also have "\<dots> = m_seq (lits ''://'' @
        [ASSERT_NOT (lits ''localhost''), ASSERT_NOT (lits ''127.0.0.1''),
         ASSERT_NOT (lits ''0.0.0.0''), ATOM host_first, MAX_REPEAT 1 None host_char]) (''://'' @ r)"
    by (simp only: m_seq_possessive[OF websocket_rej] Let_def) simp
  also have "\<dots> = m_seq [ASSERT_NOT (lits ''localhost''), ASSERT_NOT (lits ''127.0.0.1''),
            ASSERT_NOT (lits ''0.0.0.0''), ATOM host_first, MAX_REPEAT 1 None host_char] r"
    by (simp only: m_seq_lits) simp
  finally show ?thesis .
qed

lemma websocket_loopback_prefix:
  "match_here websocket_url adv (''wss://localhost'' @ r) = None"
proof -
  have "m_seq websocket_url (''wss://'' @ (''localhost'' @ r)) = []"
    unfolding m_seq_websocket_wss by (simp only: m_seq_ASSERT_NOT m_seq_lits_only) simp
  then have "m_seq websocket_url (''wss://localhost'' @ r) = []" by simp
  then show ?thesis unfolding match_here_def by simp
qed

section \<open>The acceptance fixtures\<close>

text \<open>
  C1. The text \<^verbatim>\<open>OPENCLAW_GATEWAY_TOKEN=${SOME_VAR}\<close> yields no finding; the text
  \<^verbatim>\<open>OPENCLAW_GATEWAY_TOKEN="abcdef1234"\<close> yields exactly one finding, from the second entry
  of the denylist, which is the gateway-token rule, and none from the other two rules.
\<close>

theorem gateway_token_placeholder:
  \<open>scan ''OPENCLAW_GATEWAY_TOKEN=${SOME_VAR}'' = Some [] \<and>
   scan ''OPENCLAW_GATEWAY_TOKEN="abcdef1234"'' =
     Some [\<lparr>rule = 1, span_start = 0, span_end = 34,
            matched_text = ''OPENCLAW_GATEWAY_TOKEN="abcdef1234''\<rparr>] \<and>
   denylist ! 1 = gateway_token\<close>
  by code_simp

text \<open>
  C3. The three loopback URLs \<^verbatim>\<open>wss://localhost:8080/path\<close>, \<^verbatim>\<open>ws://127.0.0.1/x\<close> and
  \<^verbatim>\<open>wss://0.0.0.0/y\<close> yield no finding; \<^verbatim>\<open>wss://gateway.example.com/path\<close> yields exactly
  one, from the third entry of the denylist, the WebSocket-URL rule.
\<close>

theorem loopback_exclusion:
  "scan ''wss://localhost:8080/path'' = Some [] \<and>
   scan ''ws://127.0.0.1/x'' = Some [] \<and>
   scan ''wss://0.0.0.0/y'' = Some [] \<and>
   scan ''wss://gateway.example.com/path'' =
     Some [\<lparr>rule = 2, span_start = 0, span_end = 25,
            matched_text = ''wss://gateway.example.com''\<rparr>] \<and>
   denylist ! 2 = websocket_url"
  by code_simp

text \<open>
  C4, evaluated on the code. The host \<^verbatim>\<open>localhost.example.com\<close> is none of the three
  loopback literals, and the scan of \<^verbatim>\<open>wss://localhost.example.com/path\<close> reports nothing;
  neither does the scan of \<^verbatim>\<open>ws://127.0.0.1.example.com/x\<close>. The lookahead
  \<^verbatim>\<open>(?!localhost)\<close> rejects every host that begins with the literal: the rule has no match
  at \<^verbatim>\<open>wss://localhost\<close> whatever follows.
\<close>

theorem websocket_prefix_host_missed:
  "scan ''wss://localhost.example.com/path'' = Some [] \<and>
   scan ''ws://127.0.0.1.example.com/x'' = Some [] \<and>
   match_here websocket_url False (''wss://localhost'' @ rest) = None"
proof (intro conjI)
  show "scan ''wss://localhost.example.com/path'' = Some []" by code_simp
  show "scan ''ws://127.0.0.1.example.com/x'' = Some []" by code_simp
  show "match_here websocket_url False (''wss://localhost'' @ rest) = None"
    by (rule websocket_loopback_prefix)
qed

theorem websocket_prefix_host_missed_witness:
  "match_here websocket_url False ''wss://localhost.example.com/path'' = None"
  using websocket_prefix_host_missed[of "''.example.com/path''"] by simp


text \<open>
  C10. Matching is case-sensitive: none of \<^verbatim>\<open>REW_\<close> with 32 lowercase hex characters,
  \<^verbatim>\<open>rew_\<close> with 32 uppercase hex characters, \<^verbatim>\<open>openclaw_gateway_token="abcdef1234"\<close> and
  \<^verbatim>\<open>WSS://gateway.example.com/path\<close> yields a finding from any rule.
\<close>

theorem case_sensitive:
  \<open>scan ''REW_0123456789abcdef0123456789abcdef'' = Some [] \<and>
   scan ''rew_0123456789ABCDEF0123456789ABCDEF'' = Some [] \<and>
   scan ''openclaw_gateway_token="abcdef1234"'' = Some [] \<and>
   scan ''WSS://gateway.example.com/path'' = Some []\<close>
  by code_simp


section \<open>Compilation happens when the class is defined\<close>

lemma compile_all_fails:
  "src \<in> set srcs \<Longrightarrow> compile src = Inl e \<Longrightarrow> \<exists>e'. compile_all srcs = Inl e'"
  by (induction srcs) (auto split: sum.splits)

text \<open>
  C8. The class body compiles the three sources without error, and what it yields is the
  denylist that scanning runs on: scanning takes compiled patterns and never a source. A
  list of sources with one that does not compile yields an error and no denylist at all.
\<close>

theorem denylist_compiles:
  "class_body = Inr denylist \<and>
   ((\<exists>src \<in> set srcs. \<exists>e. compile src = Inl e) \<longrightarrow> (\<exists>e. compile_all srcs = Inl e))"
proof
  show "class_body = Inr denylist" by (rule class_body_denylist)
next
  show "(\<exists>src \<in> set srcs. \<exists>e. compile src = Inl e) \<longrightarrow> (\<exists>e. compile_all srcs = Inl e)"
    using compile_all_fails by blast
qed

theorem denylist_compiles_witness:
  "compile ''rew_[a-f0-9{32,}'' = Inl (Re_error ''unterminated character set'') \<and>
   (\<exists>e. compile_all [reward_source, ''rew_[a-f0-9{32,}''] = Inl e)"
proof -
  have c: "compile ''rew_[a-f0-9{32,}'' = Inl (Re_error ''unterminated character set'')"
    by code_simp
  then have "\<exists>src \<in> set [reward_source, ''rew_[a-f0-9{32,}'']. \<exists>e. compile src = Inl e"
    by simp
  with denylist_compiles[of "[reward_source, ''rew_[a-f0-9{32,}'']"] c show ?thesis by blast
qed

end
